theory Spec2Isabelle
  imports Main "HOL-Library.Sublist"
begin

section \<open>IC Redact: the detection and redaction pipeline of \<open>ic_redact.py\<close>\<close>

text \<open>
  The development follows \<open>WorkerThread\<close> of \<open>src/ic_redact.py\<close>: the pattern table
  \<open>PII_PATTERNS\<close>, the reference list \<open>COMMON_NAMES\<close>, the scanner \<open>find_pii\<close> and the
  batch loop \<open>run\<close>.

  Two collaborators are outside the repository. Python's \<open>re\<close> module is modelled by a
  backtracking matcher over the abstract syntax of the patterns (section 1); the document
  engine (PyMuPDF, the file system, the clock) is a record of operations that may fail
  (section 4).

  A Python \<open>str\<close> is a sequence of Unicode code points: page text, custom phrases, file
  paths and messages are lists of natural numbers. The keys of the configuration
  dictionary and the type labels, which are literals of the program, stay \<open>string\<close>s.
\<close>

type_synonym ustr = "nat list"

definition code :: "char \<Rightarrow> nat" where
  \<comment> \<open>\<open>ord(c)\<close>\<close>
  "code c = of_char c"

definition u :: "string \<Rightarrow> ustr" where
  \<comment> \<open>a string literal of the program as a \<open>str\<close>\<close>
  "u s = map code s"

subsection \<open>1. The pattern matcher (\<open>re.finditer\<close>)\<close>

text \<open>
  On \<open>str\<close> patterns the classes of \<open>re\<close> and its case folding are those of the Unicode
  character database of the interpreter: \<open>\d\<close> is \<open>Py_UNICODE_ISDECIMAL\<close>, \<open>\s\<close> is
  \<open>Py_UNICODE_ISSPACE\<close>, \<open>\w\<close> is \<open>Py_UNICODE_ISALNUM\<close> or the underscore, and
  \<open>re.IGNORECASE\<close> compares with \<open>Py_UNICODE_TOLOWER\<close>. The database is a parameter of
  the model: below 128 every function is the ASCII table, written out; from 128 on it is
  whatever the record \<open>unicode_db\<close> says. What is proved holds for every database.
\<close>

record unicode_db =
  u_isalpha :: "nat \<Rightarrow> bool"
  u_isdecimal :: "nat \<Rightarrow> bool"
  u_isdigit :: "nat \<Rightarrow> bool"
  u_isnumeric :: "nat \<Rightarrow> bool"
  u_isspace :: "nat \<Rightarrow> bool"
  u_tolower :: "nat \<Rightarrow> nat"
  u_toupper :: "nat \<Rightarrow> nat"
  u_extra_cases :: "nat \<Rightarrow> nat list"

definition is_digit :: "unicode_db \<Rightarrow> nat \<Rightarrow> bool" where
  "is_digit U c = (if c < 128 then 48 \<le> c \<and> c \<le> 57 else u_isdecimal U c)"

definition is_alnum :: "unicode_db \<Rightarrow> nat \<Rightarrow> bool" where
  "is_alnum U c =
     (if c < 128 then (48 \<le> c \<and> c \<le> 57) \<or> (65 \<le> c \<and> c \<le> 90) \<or> (97 \<le> c \<and> c \<le> 122)
      else u_isalpha U c \<or> u_isdecimal U c \<or> u_isdigit U c \<or> u_isnumeric U c)"

definition is_word :: "unicode_db \<Rightarrow> nat \<Rightarrow> bool" where
  "is_word U c = (is_alnum U c \<or> c = 95)"

definition is_space :: "unicode_db \<Rightarrow> nat \<Rightarrow> bool" where
  "is_space U c = (if c < 128 then (9 \<le> c \<and> c \<le> 13) \<or> (28 \<le> c \<and> c \<le> 32) else u_isspace U c)"

definition tolower :: "unicode_db \<Rightarrow> nat \<Rightarrow> nat" where
  "tolower U c = (if c < 128 then (if 65 \<le> c \<and> c \<le> 90 then c + 32 else c) else u_tolower U c)"

definition toupper :: "unicode_db \<Rightarrow> nat \<Rightarrow> nat" where
  "toupper U c = (if c < 128 then (if 97 \<le> c \<and> c \<le> 122 then c - 32 else c) else u_toupper U c)"

definition iscased :: "unicode_db \<Rightarrow> nat \<Rightarrow> bool" where
  \<comment> \<open>\<open>_sre.unicode_iscased\<close>\<close>
  "iscased U c = (c \<noteq> tolower U c \<or> c \<noteq> toupper U c)"

definition extra_cases :: "unicode_db \<Rightarrow> nat \<Rightarrow> nat list" where
  \<comment> \<open>\<open>_EXTRA_CASES\<close>: the other lower-case characters with the same upper case; for
      \<open>i\<close> the dotless i (U+0131), for \<open>s\<close> the long s (U+017F)\<close>
  "extra_cases U lo =
     (if lo < 128 then (if lo = 105 then [305] else if lo = 115 then [383] else [])
      else u_extra_cases U lo)"

definition folds :: "unicode_db \<Rightarrow> nat \<Rightarrow> nat list" where
  \<comment> \<open>what a cased pattern character \<open>x\<close> is compiled to: \<open>(lo,) + fixes[lo]\<close>\<close>
  "folds U x = tolower U x # extra_cases U (tolower U x)"

text \<open>
  A character set \<open>[...]\<close> is a list of items; a pattern is a term of \<open>rx\<close>. Quantifiers
  on one character (\<open>\d{3}\<close>, \<open>\s+\<close>, \<open>[a-z]*\<close>) are \<open>Rep\<close> with a minimum and an optional
  maximum; \<open>x?\<close> and \<open>(...)?\<close> are \<open>Opt\<close>; \<open>\b\<close> is \<open>WordB\<close>. Capturing groups do not
  change what is matched and are not represented.
\<close>

datatype citem = CChar nat | CRange nat nat | CDigit | CWord | CSpace

fun in_item :: "unicode_db \<Rightarrow> citem \<Rightarrow> nat \<Rightarrow> bool" where
  "in_item U (CChar x) c = (c = x)"
| "in_item U (CRange lo hi) c = (lo \<le> c \<and> c \<le> hi)"
| "in_item U CDigit c = is_digit U c"
| "in_item U CWord c = is_word U c"
| "in_item U CSpace c = is_space U c"

definition in_cls :: "unicode_db \<Rightarrow> citem list \<Rightarrow> nat \<Rightarrow> bool" where
  "in_cls U cs c = list_ex (\<lambda>it. in_item U it c) cs"

text \<open>
  With \<open>re.IGNORECASE\<close> the compiler (\<open>_optimize_charset\<close>) replaces every character of
  a set, and every character of a range, by its lower case and the extra cases of that;
  the classes stay. If a member is cased, the engine then tests the lower case of the
  text character (\<open>IN_UNI_IGNORE\<close>); a set without cased members is tested as it is.
  A literal is compiled the same way: an uncased one is compared as it is, a cased one
  is the set of its folds, tested on the lower case of the text character.
\<close>

fun item_cased :: "unicode_db \<Rightarrow> citem \<Rightarrow> bool" where
  "item_cased U (CChar x) = iscased U x"
| "item_cased U (CRange lo hi) = list_ex (iscased U) [lo..<Suc hi]"
| "item_cased U CDigit = False"
| "item_cased U CWord = False"
| "item_cased U CSpace = False"

definition hascased :: "unicode_db \<Rightarrow> citem list \<Rightarrow> bool" where
  "hascased U cs = list_ex (item_cased U) cs"

fun in_item_folded :: "unicode_db \<Rightarrow> citem \<Rightarrow> nat \<Rightarrow> bool" where
  "in_item_folded U (CChar x) c = (c \<in> set (folds U x))"
| "in_item_folded U (CRange lo hi) c = list_ex (\<lambda>x. c \<in> set (folds U x)) [lo..<Suc hi]"
| "in_item_folded U CDigit c = is_digit U c"
| "in_item_folded U CWord c = is_word U c"
| "in_item_folded U CSpace c = is_space U c"

definition cls_match :: "unicode_db \<Rightarrow> bool \<Rightarrow> citem list \<Rightarrow> nat \<Rightarrow> bool" where
  "cls_match U ic cs c =
     (if ic \<and> hascased U cs then list_ex (\<lambda>it. in_item_folded U it (tolower U c)) cs
      else in_cls U cs c)"

definition lit_match :: "unicode_db \<Rightarrow> bool \<Rightarrow> nat \<Rightarrow> nat \<Rightarrow> bool" where
  "lit_match U ic x c = (if ic \<and> iscased U x then tolower U c \<in> set (folds U x) else c = x)"

datatype rx =
    Eps
  | Lit nat
  | Cls "citem list"
  | Rep "citem list" nat "nat option"
  | Opt rx
  | Seq rx rx
  | Alt rx rx
  | WordB

fun run_len :: "unicode_db \<Rightarrow> bool \<Rightarrow> citem list \<Rightarrow> ustr \<Rightarrow> nat" where
  "run_len U ic cs [] = 0"
| "run_len U ic cs (c # r) = (if cls_match U ic cs c then Suc (run_len U ic cs r) else 0)"

definition word_at :: "unicode_db \<Rightarrow> ustr \<Rightarrow> nat \<Rightarrow> bool" where
  "word_at U t i = (i < length t \<and> is_word U (t ! i))"

definition at_boundary :: "unicode_db \<Rightarrow> ustr \<Rightarrow> nat \<Rightarrow> bool" where
  "at_boundary U t i = (word_at U t i \<noteq> (0 < i \<and> word_at U t (i - 1)))"

text \<open>
  \<open>re_match U ic t r i\<close> lists the positions where a match of \<open>r\<close> that starts at \<open>i\<close> can
  end, in the order in which the backtracking engine tries them: a greedy quantifier
  tries the longest run first, an alternation its branches from left to right. The
  engine reports the first one.
\<close>

primrec re_match :: "unicode_db \<Rightarrow> bool \<Rightarrow> ustr \<Rightarrow> rx \<Rightarrow> nat \<Rightarrow> nat list" where
  "re_match U ic t Eps i = [i]"
| "re_match U ic t (Lit x) i = (if i < length t \<and> lit_match U ic x (t ! i) then [Suc i] else [])"
| "re_match U ic t (Cls cs) i = (if i < length t \<and> cls_match U ic cs (t ! i) then [Suc i] else [])"
| "re_match U ic t (Rep cs lo hi) i =
     (let n = run_len U ic cs (drop i t);
          k = (case hi of None \<Rightarrow> n | Some h \<Rightarrow> min h n)
      in map (\<lambda>j. i + j) (rev [lo..<Suc k]))"
| "re_match U ic t (Opt r) i = re_match U ic t r i @ [i]"
| "re_match U ic t (Seq r s) i = concat (map (re_match U ic t s) (re_match U ic t r i))"
| "re_match U ic t (Alt r s) i = re_match U ic t r i @ re_match U ic t s i"
| "re_match U ic t WordB i = (if at_boundary U t i then [i] else [])"

lemma re_match_ge: "e \<in> set (re_match U ic t r i) \<Longrightarrow> i \<le> e"
proof (induction r arbitrary: i e)
  case (Seq r s)
  then obtain m where "m \<in> set (re_match U ic t r i)" "e \<in> set (re_match U ic t s m)"
    by auto
  with Seq.IH show ?case by (meson le_trans)
qed (auto simp: Let_def split: if_splits)

text \<open>
  \<open>re.finditer\<close>: scan from position \<open>p\<close>; the first position where the pattern matches
  gives the next match \<open>(start, end)\<close>, and the scan resumes at its end. After an empty
  match the engine must advance: at that one position an empty match is refused.
\<close>

function finditer_from :: "unicode_db \<Rightarrow> bool \<Rightarrow> rx \<Rightarrow> ustr \<Rightarrow> nat \<Rightarrow> bool \<Rightarrow> (nat \<times> nat) list" where
  "finditer_from U ic r t p adv =
     (if length t < p then []
      else case filter (\<lambda>e. \<not> adv \<or> e \<noteq> p) (re_match U ic t r p) of
             [] \<Rightarrow> finditer_from U ic r t (Suc p) False
           | e # _ \<Rightarrow> (p, e) # finditer_from U ic r t e (e = p))"
  by pat_completeness auto
termination
proof (relation "measure (\<lambda>(U, ic, r, t, p, adv). 2 * (Suc (length t) - p) + (if adv then 0 else 1))",
       goal_cases)
  case 1
  show ?case by simp
next
  case (2 U ic r t p adv)
  then show ?case by auto
next
  case (3 U ic r t p adv e es)
  then have "e \<in> set (filter (\<lambda>e. \<not> adv \<or> e \<noteq> p) (re_match U ic t r p))"
    by simp
  then have "p \<le> e" and "\<not> adv \<or> e \<noteq> p"
    using re_match_ge by auto
  with 3 show ?case by auto
qed

declare finditer_from.simps [simp del]

definition finditer :: "unicode_db \<Rightarrow> bool \<Rightarrow> rx \<Rightarrow> ustr \<Rightarrow> (nat \<times> nat) list" where
  "finditer U ic r t = finditer_from U ic r t 0 False"

definition seqs :: "rx list \<Rightarrow> rx" where
  "seqs rs = foldr Seq rs Eps"

definition alts :: "rx list \<Rightarrow> rx" where
  \<comment> \<open>\<open>a|b|c\<close>; only used on non-empty lists\<close>
  "alts rs = foldr Alt (butlast rs) (last rs)"

definition digits :: "nat \<Rightarrow> rx" where
  \<comment> \<open>\<open>\d{n}\<close>\<close>
  "digits n = Rep [CDigit] n (Some n)"

text \<open>
  \<open>re.escape(word)\<close> puts a backslash before every character of its table of special
  characters and leaves the others. The pattern parser reads a backslash followed by a
  character that is no ASCII letter or digit as that character, and a character outside
  its own special characters as itself. \<open>parse_literals\<close> is the parser on this fragment;
  outside the fragment it gives \<open>None\<close>.
\<close>

definition special_chars :: ustr where
  \<comment> \<open>\<open>_special_chars_map\<close> of \<open>re\<close>: \<open>()[]{}?*+-|^$\.&~#\<close>, space, tab, newline,
      carriage return, vertical tab, form feed\<close>
  "special_chars = u ''()[]{}?*+-|^$'' @ [92] @ u ''.&~# '' @ [9, 10, 13, 11, 12]"

definition re_escape :: "ustr \<Rightarrow> ustr" where
  "re_escape word = concat (map (\<lambda>c. if c \<in> set special_chars then [92, c] else [c]) word)"

definition ascii_alnum :: "nat \<Rightarrow> bool" where
  "ascii_alnum c = ((48 \<le> c \<and> c \<le> 57) \<or> (65 \<le> c \<and> c \<le> 90) \<or> (97 \<le> c \<and> c \<le> 122))"

definition parser_special :: ustr where
  \<comment> \<open>\<open>SPECIAL_CHARS\<close> of the parser: \<open>.\[{()*+?^$|\<close>\<close>
  "parser_special = u ''.'' @ [92] @ u ''[{()*+?^$|''"

fun parse_literals :: "ustr \<Rightarrow> rx list option" where
  "parse_literals [] = Some []"
| "parse_literals [c] = (if c \<in> set parser_special then None else Some [Lit c])"
| "parse_literals (c # d # cs) =
     (if c = 92 then
        (if ascii_alnum d then None else map_option (\<lambda>rs. Lit d # rs) (parse_literals cs))
      else if c \<in> set parser_special then None
      else map_option (\<lambda>rs. Lit c # rs) (parse_literals (d # cs)))"

definition escape :: "ustr \<Rightarrow> rx" where
  \<comment> \<open>the pattern that \<open>re.escape(word)\<close> compiles to\<close>
  "escape word = (case parse_literals (re_escape word) of Some rs \<Rightarrow> seqs rs | None \<Rightarrow> Eps)"

subsection \<open>2. The pattern table and the reference names\<close>

text \<open>\<open>PII_PATTERNS\<close>, one definition per key, each rule in the order of the source.\<close>

definition str :: "string \<Rightarrow> rx" where
  \<comment> \<open>a run of literal characters inside a pattern\<close>
  "str s = seqs (map Lit (u s))"

definition lit :: "char \<Rightarrow> rx" where
  "lit c = Lit (code c)"

definition cchar :: "char \<Rightarrow> citem" where
  "cchar c = CChar (code c)"

definition crange :: "char \<Rightarrow> char \<Rightarrow> citem" where
  "crange a b = CRange (code a) (code b)"

definition SSN :: "rx list" where
  "SSN =
    [seqs [WordB, digits 3, lit CHR ''-'', digits 2, lit CHR ''-'', digits 4, WordB],
     seqs [WordB, digits 3, Cls [CSpace], digits 2, Cls [CSpace], digits 4, WordB]]"

definition PHONE :: "rx list" where
  "PHONE =
    [seqs [WordB, Opt (lit CHR ''(''), digits 3, Opt (lit CHR '')''),
           Opt (Cls [cchar CHR ''-'', cchar CHR ''.'', CSpace]), digits 3,
           Opt (Cls [cchar CHR ''-'', cchar CHR ''.'', CSpace]), digits 4, WordB]]"

definition EMAIL :: "rx list" where
  "EMAIL =
    [seqs [WordB,
           Rep [crange CHR ''A'' CHR ''Z'', crange CHR ''a'' CHR ''z'', crange CHR ''0'' CHR ''9'',
                cchar CHR ''.'', cchar CHR ''_'', cchar CHR ''%'', cchar CHR ''+'', cchar CHR ''-'']
               1 None,
           lit CHR ''@'',
           Rep [crange CHR ''A'' CHR ''Z'', crange CHR ''a'' CHR ''z'', crange CHR ''0'' CHR ''9'',
                cchar CHR ''.'', cchar CHR ''-''] 1 None,
           lit CHR ''.'',
           Rep [crange CHR ''A'' CHR ''Z'', cchar CHR ''|'', crange CHR ''a'' CHR ''z''] 2 None,
           WordB]]"

definition CREDIT_CARD :: "rx list" where
  "CREDIT_CARD =
    [seqs [WordB, digits 4, Opt (Cls [cchar CHR ''-'', CSpace]),
           digits 4, Opt (Cls [cchar CHR ''-'', CSpace]),
           digits 4, Opt (Cls [cchar CHR ''-'', CSpace]), digits 4, WordB]]"

definition BANK_ACCOUNT :: "rx list" where
  "BANK_ACCOUNT = [seqs [WordB, Rep [CDigit] 8 (Some 17), WordB]]"

definition month_num :: rx where
  \<comment> \<open>\<open>(0?[1-9]|1[0-2])\<close>\<close>
  "month_num = Alt (Seq (Opt (lit CHR ''0'')) (Cls [crange CHR ''1'' CHR ''9'']))
                   (Seq (lit CHR ''1'') (Cls [crange CHR ''0'' CHR ''2'']))"

definition day_num :: rx where
  \<comment> \<open>\<open>(0?[1-9]|[12]\d|3[01])\<close>\<close>
  "day_num = alts [Seq (Opt (lit CHR ''0'')) (Cls [crange CHR ''1'' CHR ''9'']),
                   Seq (Cls [cchar CHR ''1'', cchar CHR ''2'']) (Cls [CDigit]),
                   Seq (lit CHR ''3'') (Cls [cchar CHR ''0'', cchar CHR ''1''])]"

definition date_sep :: rx where
  \<comment> \<open>\<open>[-/]\<close>\<close>
  "date_sep = Cls [cchar CHR ''-'', cchar CHR ''/'']"

definition year4 :: rx where
  \<comment> \<open>\<open>(19|20)\d{2}\<close>\<close>
  "year4 = Seq (Alt (str ''19'') (str ''20'')) (digits 2)"

definition month_name :: rx where
  \<comment> \<open>\<open>(Jan|Feb|Mar|Apr|May|Jun|Jul|Aug|Sep|Oct|Nov|Dec)\<close>\<close>
  "month_name = alts (map str [''Jan'', ''Feb'', ''Mar'', ''Apr'', ''May'', ''Jun'',
                               ''Jul'', ''Aug'', ''Sep'', ''Oct'', ''Nov'', ''Dec''])"

definition DATE_OF_BIRTH :: "rx list" where
  "DATE_OF_BIRTH =
    [seqs [WordB, month_num, date_sep, day_num, date_sep, year4, WordB],
     seqs [WordB, year4, date_sep, month_num, date_sep, day_num, WordB],
     seqs [WordB, month_name, Rep [crange CHR ''a'' CHR ''z''] 0 None, Opt (lit CHR ''.''),
           Rep [CSpace] 1 None, Rep [CDigit] 1 (Some 2), Opt (lit CHR '',''),
           Rep [CSpace] 1 None, year4, WordB]]"

definition street_suffix :: rx where
  "street_suffix = alts (map str [''Street'', ''St'', ''Avenue'', ''Ave'', ''Road'', ''Rd'',
                                  ''Boulevard'', ''Blvd'', ''Drive'', ''Dr'', ''Lane'', ''Ln'',
                                  ''Way'', ''Court'', ''Ct''])"

definition ADDRESS :: "rx list" where
  "ADDRESS =
    [seqs [WordB, Rep [CDigit] 1 (Some 5), Rep [CSpace] 1 None,
           Rep [CWord, CSpace] 1 (Some 30), Rep [CSpace] 1 None,
           street_suffix, Opt (lit CHR ''.''), WordB],
     seqs [WordB, Cls [crange CHR ''A'' CHR ''Z''], Rep [crange CHR ''a'' CHR ''z''] 1 None,
           Opt (lit CHR '',''), Rep [CSpace] 1 None,
           Rep [crange CHR ''A'' CHR ''Z''] 2 (Some 2), Rep [CSpace] 1 None,
           digits 5, Opt (Seq (lit CHR ''-'') (digits 4)), WordB]]"

definition PII_PATTERNS :: "string \<Rightarrow> rx list" where
  "PII_PATTERNS k =
     (if k = ''SSN'' then SSN
      else if k = ''PHONE'' then PHONE
      else if k = ''EMAIL'' then EMAIL
      else if k = ''CREDIT_CARD'' then CREDIT_CARD
      else if k = ''BANK_ACCOUNT'' then BANK_ACCOUNT
      else if k = ''DATE_OF_BIRTH'' then DATE_OF_BIRTH
      else if k = ''ADDRESS'' then ADDRESS
      else [])"

definition COMMON_NAMES :: "ustr list" where
  "COMMON_NAMES = map u
    [''James'', ''John'', ''Robert'', ''Michael'', ''William'', ''David'', ''Richard'',
     ''Joseph'', ''Thomas'', ''Charles'',
     ''Mary'', ''Patricia'', ''Jennifer'', ''Linda'', ''Barbara'', ''Elizabeth'', ''Susan'',
     ''Jessica'', ''Sarah'', ''Karen'',
     ''Christopher'', ''Daniel'', ''Matthew'', ''Anthony'', ''Mark'', ''Donald'', ''Steven'',
     ''Paul'', ''Andrew'', ''Joshua'']"

subsection \<open>3. \<open>WorkerThread\<close> and \<open>find_pii\<close>\<close>

text \<open>
  A detection is the dictionary \<open>{"text", "type", "start"}\<close> that \<open>find_pii\<close> builds;
  \<open>run\<close> adds the key \<open>"page"\<close> later, so the page is optional.
\<close>

record det =
  det_text :: ustr
  det_type :: string
  det_start :: nat
  det_page :: "nat option"

record worker =
  files :: "ustr list"
  detection :: "string \<rightharpoonup> bool"
  custom_words :: "ustr list"
  output_dir :: "ustr option"
  preview_data :: "ustr \<rightharpoonup> det list"
  output_mode :: string
  is_preview :: bool

definition WorkerThread :: "ustr list \<Rightarrow> (string \<rightharpoonup> bool) \<Rightarrow> ustr list \<Rightarrow> ustr option
    \<Rightarrow> (ustr \<rightharpoonup> det list) option \<Rightarrow> string \<Rightarrow> worker" where
  \<comment> \<open>\<open>__init__\<close>; \<open>preview_data or {}\<close> turns \<open>None\<close> into the empty cache\<close>
  "WorkerThread fs detn cw out_dir pd mode =
     \<lparr>files = fs, detection = detn, custom_words = cw, output_dir = out_dir,
      preview_data = (case pd of None \<Rightarrow> Map.empty | Some m \<Rightarrow> m),
      output_mode = mode, is_preview = (out_dir = None)\<rparr>"

definition enabled :: "worker \<Rightarrow> string \<Rightarrow> bool" where
  \<comment> \<open>\<open>self.detection.get(k)\<close> read as a truth value: a missing key is \<open>None\<close>\<close>
  "enabled w k = (detection w k = Some True)"

definition hits :: "unicode_db \<Rightarrow> bool \<Rightarrow> string \<Rightarrow> rx \<Rightarrow> ustr \<Rightarrow> det list" where
  \<comment> \<open>\<open>for m in re.finditer(p, text, flags): detections.append({...})\<close>\<close>
  "hits U ic ty p t =
     map (\<lambda>(s, e). \<lparr>det_text = take (e - s) (drop s t), det_type = ty,
                      det_start = s, det_page = None\<rparr>)
         (finditer U ic p t)"

definition scan_rules :: "unicode_db \<Rightarrow> bool \<Rightarrow> string \<Rightarrow> rx list \<Rightarrow> ustr \<Rightarrow> det list" where
  \<comment> \<open>\<open>for p in PII_PATTERNS[k]: ...\<close>\<close>
  "scan_rules U ic ty ps t = concat (map (\<lambda>p. hits U ic ty p t) ps)"

definition name_rule :: "ustr \<Rightarrow> rx" where
  \<comment> \<open>\<open>r'\b' + re.escape(name) + r'\b'\<close>\<close>
  "name_rule name = Seq WordB (Seq (escape name) WordB)"

definition candidates :: "unicode_db \<Rightarrow> worker \<Rightarrow> ustr \<Rightarrow> det list" where
  \<comment> \<open>the list \<open>detections\<close> when the loops of \<open>find_pii\<close> are over\<close>
  "candidates U w t =
     (if enabled w ''ssn'' then scan_rules U False ''SSN'' (PII_PATTERNS ''SSN'') t else [])
   @ (if enabled w ''phone'' then scan_rules U False ''PHONE'' (PII_PATTERNS ''PHONE'') t else [])
   @ (if enabled w ''email'' then scan_rules U True ''EMAIL'' (PII_PATTERNS ''EMAIL'') t else [])
   @ (if enabled w ''credit_card''
      then scan_rules U False ''CREDIT_CARD'' (PII_PATTERNS ''CREDIT_CARD'') t else [])
   @ (if enabled w ''bank''
      then scan_rules U False ''BANK_ACCOUNT'' (PII_PATTERNS ''BANK_ACCOUNT'') t else [])
   @ (if enabled w ''dob'' then scan_rules U True ''DOB'' (PII_PATTERNS ''DATE_OF_BIRTH'') t else [])
   @ (if enabled w ''address'' then scan_rules U True ''ADDRESS'' (PII_PATTERNS ''ADDRESS'') t else [])
   @ (if enabled w ''names'' then scan_rules U True ''NAME'' (map name_rule COMMON_NAMES) t else [])
   @ concat (map (\<lambda>word. hits U True ''CUSTOM'' (escape word) t) (custom_words w))"

definition det_key :: "det \<Rightarrow> nat \<times> ustr" where
  \<comment> \<open>\<open>key = (d["start"], d["text"])\<close>\<close>
  "det_key d = (det_start d, det_text d)"

fun dedup_loop :: "(nat \<times> ustr) set \<Rightarrow> det list \<Rightarrow> det list \<Rightarrow> det list" where
  "dedup_loop seen unique [] = unique"
| "dedup_loop seen unique (d # ds) =
     (if det_key d \<notin> seen then dedup_loop (insert (det_key d) seen) (unique @ [d]) ds
      else dedup_loop seen unique ds)"

definition find_pii :: "unicode_db \<Rightarrow> worker \<Rightarrow> ustr \<Rightarrow> det list" where
  \<comment> \<open>Python's \<open>sorted\<close> is stable, as \<open>sort_key\<close> is\<close>
  "find_pii U w t = dedup_loop {} [] (sort_key det_start (candidates U w t))"

text \<open>
  The specification's order of the last two steps: first keep, for every key
  \<open>(start, text)\<close>, the first candidate in insertion order and drop the rest of its
  group; then sort by start offset, ties keeping their insertion order.
\<close>

fun spec_dedup :: "det list \<Rightarrow> det list" where
  "spec_dedup [] = []"
| "spec_dedup (d # ds) = d # spec_dedup (filter (\<lambda>x. det_key x \<noteq> det_key d) ds)"

definition spec_scan :: "det list \<Rightarrow> det list" where
  "spec_scan cands = sort_key det_start (spec_dedup cands)"

text \<open>
  Switching a category on or off is an update of the dictionary \<open>self.detection\<close>. The
  configuration keys and the \<open>"type"\<close> that the block guarded by each key writes:
\<close>

definition category_keys :: "string list" where
  "category_keys = [''ssn'', ''phone'', ''email'', ''credit_card'', ''bank'', ''dob'', ''address'', ''names'']"

definition type_label :: "string \<Rightarrow> string" where
  "type_label k =
     (if k = ''ssn'' then ''SSN''
      else if k = ''phone'' then ''PHONE''
      else if k = ''email'' then ''EMAIL''
      else if k = ''credit_card'' then ''CREDIT_CARD''
      else if k = ''bank'' then ''BANK_ACCOUNT''
      else if k = ''dob'' then ''DOB''
      else if k = ''address'' then ''ADDRESS''
      else if k = ''names'' then ''NAME''
      else [])"

definition set_category :: "worker \<Rightarrow> string \<Rightarrow> bool \<Rightarrow> worker" where
  "set_category w k b = w\<lparr>detection := (detection w)(k \<mapsto> b)\<rparr>"

text \<open>A configuration with only the phone and the bank-account rules switched on.\<close>

definition cfg_phone_bank :: "string \<rightharpoonup> bool" where
  "cfg_phone_bank = [''ssn'' \<mapsto> False, ''names'' \<mapsto> False, ''phone'' \<mapsto> True, ''email'' \<mapsto> False,
     ''address'' \<mapsto> False, ''dob'' \<mapsto> False, ''bank'' \<mapsto> True, ''credit_card'' \<mapsto> False]"

definition w_phone_bank :: worker where
  "w_phone_bank = WorkerThread [] cfg_phone_bank [] None None ''black''"

text \<open>
  An occurrence of a phrase at offset \<open>i\<close> of the page text, case-insensitive in the
  sense of \<open>re.IGNORECASE\<close>: the slice of the phrase's length at \<open>i\<close> matches the phrase
  character by character, an uncased phrase character only itself, a cased one every
  text character whose lower case is among its folds.
\<close>

definition occurs_at :: "unicode_db \<Rightarrow> ustr \<Rightarrow> ustr \<Rightarrow> nat \<Rightarrow> bool" where
  "occurs_at U word t i =
     (i + length word \<le> length t
      \<and> list_all2 (lit_match U True) word (take (length word) (drop i t)))"

text \<open>A worker whose only custom phrase is \<open>Project-123\<close>.\<close>

definition w_project :: worker where
  "w_project = WorkerThread [] Map.empty [u ''Project-123''] None None ''black''"






section \<open>Properties\<close>

subsection \<open>Deduplication and ordering\<close>

lemma dedup_loop_spec:
  "dedup_loop seen unique ds = unique @ spec_dedup (filter (\<lambda>d. det_key d \<notin> seen) ds)"
proof (induction ds arbitrary: seen unique)
  case Nil
  show ?case by simp
next
  case (Cons d ds)
  have "filter (\<lambda>x. det_key x \<notin> insert (det_key d) seen) ds
        = filter (\<lambda>x. det_key x \<noteq> det_key d) (filter (\<lambda>x. det_key x \<notin> seen) ds)"
    by (simp add: conj_commute)
  with Cons show ?case by simp
qed

lemma set_spec_dedup: "set (spec_dedup xs) \<subseteq> set xs"
  by (induction xs rule: spec_dedup.induct) auto

lemma in_spec_dedup_filter: "z \<in> set (spec_dedup (filter P xs)) \<Longrightarrow> z \<in> set xs"
proof -
  assume "z \<in> set (spec_dedup (filter P xs))"
  then have "z \<in> set (filter P xs)"
    using set_spec_dedup by blast
  then show ?thesis by simp
qed

lemma spec_dedup_filter_key:
  "filter (\<lambda>x. det_key x \<noteq> k) (spec_dedup xs) = spec_dedup (filter (\<lambda>x. det_key x \<noteq> k) xs)"
proof (induction xs rule: spec_dedup.induct)
  case 1
  show ?case by simp
next
  case (2 d ds)
  have comm: "filter (\<lambda>x. det_key x \<noteq> k) (filter (\<lambda>x. det_key x \<noteq> det_key d) ds)
      = filter (\<lambda>x. det_key x \<noteq> det_key d) (filter (\<lambda>x. det_key x \<noteq> k) ds)"
    by (simp add: conj_commute)
  show ?case
  proof (cases "det_key d = k")
    case True
    then show ?thesis using 2 by simp
  next
    case False
    then show ?thesis using 2 comm by simp
  qed
qed

lemma distinct_spec_dedup: "distinct (map det_key (spec_dedup xs))"
proof (induction xs rule: spec_dedup.induct)
  case 1
  show ?case by simp
next
  case (2 d ds)
  have "det_key d \<notin> det_key ` set (spec_dedup (filter (\<lambda>x. det_key x \<noteq> det_key d) ds))"
    using set_spec_dedup [of "filter (\<lambda>x. det_key x \<noteq> det_key d) ds"] by auto
  with 2 show ?case by simp
qed

lemma sorted_spec_dedup:
  "sorted (map det_start xs) \<Longrightarrow> sorted (map det_start (spec_dedup xs))"
proof (induction xs rule: spec_dedup.induct)
  case 1
  show ?case by simp
next
  case (2 d ds)
  let ?fs = "filter (\<lambda>x. det_key x \<noteq> det_key d) ds"
  from 2 have "sorted (map det_start ?fs)"
    by (simp add: sorted_filter)
  with 2 have "sorted (map det_start (spec_dedup ?fs))" by simp
  moreover have "\<forall>x \<in> set (spec_dedup ?fs). det_start d \<le> det_start x"
    using set_spec_dedup [of ?fs] "2.prems" by auto
  ultimately show ?case by simp
qed

lemma insort_key_first:
  "\<forall>y \<in> set ys. f x \<le> f y \<Longrightarrow> insort_key f x ys = x # ys"
  by (cases ys) auto

lemma spec_dedup_insort:
  "sorted (map det_start ys) \<Longrightarrow>
   spec_dedup (insort_key det_start x ys)
     = insort_key det_start x (spec_dedup (filter (\<lambda>y. det_key y \<noteq> det_key x) ys))"
proof (induction ys rule: spec_dedup.induct)
  case 1
  show ?case by simp
next
  case (2 y ys)
  let ?nx = "\<lambda>z. det_key z \<noteq> det_key x" and ?ny = "\<lambda>z. det_key z \<noteq> det_key y"
  show ?case
  proof (cases "det_start x \<le> det_start y")
    case True
    have "\<forall>z \<in> set (spec_dedup (filter ?nx (y # ys))). det_start x \<le> det_start z"
    proof
      fix z
      assume "z \<in> set (spec_dedup (filter ?nx (y # ys)))"
      then have "z \<in> set (y # ys)"
        by (rule in_spec_dedup_filter)
      then have "det_start y \<le> det_start z"
        using "2.prems" by auto
      with True show "det_start x \<le> det_start z" by simp
    qed
    then have "insort_key det_start x (spec_dedup (filter ?nx (y # ys)))
        = x # spec_dedup (filter ?nx (y # ys))"
      by (rule insort_key_first)
    with True show ?thesis by simp
  next
    case False
    then have kxy: "det_key x \<noteq> det_key y"
      by (auto simp: det_key_def)
    from "2.prems" have srt: "sorted (map det_start (filter ?ny ys))"
      by (simp add: sorted_filter)
    have "spec_dedup (insort_key det_start x (y # ys))
        = y # spec_dedup (filter ?ny (insort_key det_start x ys))"
      using False by simp
    also have "filter ?ny (insort_key det_start x ys) = insort_key det_start x (filter ?ny ys)"
      using "2.prems" kxy by (simp add: filter_insort)
    also have "spec_dedup (insort_key det_start x (filter ?ny ys))
        = insort_key det_start x (spec_dedup (filter ?nx (filter ?ny ys)))"
      using "2.IH" srt by simp
    also have "filter ?nx (filter ?ny ys) = filter ?ny (filter ?nx ys)"
      by (simp add: conj_commute)
    finally show ?thesis using False kxy by simp
  qed
qed

lemma spec_dedup_sort:
  "spec_dedup (sort_key det_start xs) = sort_key det_start (spec_dedup xs)"
proof (induction xs rule: spec_dedup.induct)
  case 1
  show ?case by simp
next
  case (2 d ds)
  let ?nd = "\<lambda>z. det_key z \<noteq> det_key d"
  have "spec_dedup (sort_key det_start (d # ds))
      = spec_dedup (insort_key det_start d (sort_key det_start ds))"
    by simp
  also have "\<dots> = insort_key det_start d (spec_dedup (filter ?nd (sort_key det_start ds)))"
    by (rule spec_dedup_insort) simp
  also have "filter ?nd (sort_key det_start ds) = sort_key det_start (filter ?nd ds)"
    by (simp add: filter_sort)
  also have "spec_dedup (sort_key det_start (filter ?nd ds))
      = sort_key det_start (spec_dedup (filter ?nd ds))"
    using 2 by simp
  finally show ?case by simp
qed

lemma find_pii_spec: "find_pii U w t = spec_dedup (sort_key det_start (candidates U w t))"
  by (simp add: find_pii_def dedup_loop_spec)

text \<open>
  C3 (dedup invariant). For every page text, detection configuration and custom-phrase
  list, the keys \<open>(start, text)\<close> of the list returned by \<open>find_pii\<close> are pairwise
  different: no two detections share both the start offset and the matched text,
  whichever categories or rules produced the candidates.
\<close>

theorem find_pii_dedup: "distinct (map (\<lambda>d. (det_start d, det_text d)) (find_pii U w t))"
proof -
  have "distinct (map det_key (find_pii U w t))"
    by (simp add: find_pii_spec distinct_spec_dedup)
  moreover have "det_key = (\<lambda>d. (det_start d, det_text d))"
    by (rule ext) (simp add: det_key_def)
  ultimately show ?thesis by simp
qed

text \<open>
  C4 (ordering invariant). For every page text, detection configuration and
  custom-phrase list, the list returned by \<open>find_pii\<close> is sorted by start offset in
  non-decreasing order.
\<close>

theorem find_pii_sorted: "sorted (map det_start (find_pii U w t))"
  by (simp add: find_pii_spec sorted_spec_dedup)

text \<open>
  C6 (algorithm-order equivalence). The code sorts the candidates and then removes
  duplicates; the specification removes duplicates (first candidate of every key, in the
  scan order in which \<open>candidates\<close> lists them) and then sorts stably. Both give the same
  list.
\<close>

theorem find_pii_refines_spec: "find_pii U w t = spec_scan (candidates U w t)"
  by (simp add: find_pii_spec spec_scan_def spec_dedup_sort)

subsection \<open>Category independence\<close>

lemma hits_type: "d \<in> set (hits U ic ty p t) \<Longrightarrow> det_type d = ty"
  by (auto simp: hits_def)

lemma scan_rules_type: "d \<in> set (scan_rules U ic ty ps t) \<Longrightarrow> det_type d = ty"
  by (auto simp: scan_rules_def dest: hits_type)

lemma filter_scan_rules:
  "filter (\<lambda>d. det_type d \<noteq> T) (scan_rules U ic ty ps t) = (if ty = T then [] else scan_rules U ic ty ps t)"
  by (auto simp: filter_empty_conv filter_id_conv dest: scan_rules_type)

lemma filter_custom:
  "T \<noteq> ''CUSTOM'' \<Longrightarrow>
   filter (\<lambda>d. det_type d \<noteq> T) (concat (map (\<lambda>word. hits U True ''CUSTOM'' (escape word) t) ws))
     = concat (map (\<lambda>word. hits U True ''CUSTOM'' (escape word) t) ws)"
  by (auto simp: filter_id_conv dest: hits_type)

lemma enabled_set_category:
  "enabled (set_category w k b) k' = (if k' = k then b else enabled w k')"
  by (simp add: enabled_def set_category_def)

lemma custom_words_set_category: "custom_words (set_category w k b) = custom_words w"
  by (simp add: set_category_def)

lemma filter_if_block:
  "filter P (if b then xs else []) = (if b then filter P xs else [])"
  by simp

lemma candidates_disable:
  assumes "k \<in> set category_keys"
  shows "candidates U (set_category w k False) t
       = filter (\<lambda>d. det_type d \<noteq> type_label k) (candidates U (set_category w k True) t)"
proof -
  from assms have "k = ''ssn'' \<or> k = ''phone'' \<or> k = ''email'' \<or> k = ''credit_card''
      \<or> k = ''bank'' \<or> k = ''dob'' \<or> k = ''address'' \<or> k = ''names''"
    unfolding category_keys_def by (simp only: list.set insert_iff empty_iff simp_thms)
  then show ?thesis
  proof (elim disjE, goal_cases)
    case 1
    show ?thesis
      unfolding 1 candidates_def enabled_set_category custom_words_set_category type_label_def
      apply (simp only: filter_append filter_if_block filter_scan_rules refl if_True if_False)
      apply (simp only: list.inject list.distinct char.inject simp_thms if_True if_False
          append_Nil filter_custom cong: if_weak_cong)
      apply (simp only: list.inject list.distinct char.inject simp_thms if_True if_False)
      done
  next
    case 2
    show ?thesis
      unfolding 2 candidates_def enabled_set_category custom_words_set_category type_label_def
      apply (simp only: filter_append filter_if_block filter_scan_rules refl if_True if_False)
      apply (simp only: list.inject list.distinct char.inject simp_thms if_True if_False
          append_Nil filter_custom cong: if_weak_cong)
      apply (simp only: list.inject list.distinct char.inject simp_thms if_True if_False)
      done
  next
    case 3
    show ?thesis
      unfolding 3 candidates_def enabled_set_category custom_words_set_category type_label_def
      apply (simp only: filter_append filter_if_block filter_scan_rules refl if_True if_False)
      apply (simp only: list.inject list.distinct char.inject simp_thms if_True if_False
          append_Nil filter_custom cong: if_weak_cong)
      apply (simp only: list.inject list.distinct char.inject simp_thms if_True if_False)
      done
  next
    case 4
    show ?thesis
      unfolding 4 candidates_def enabled_set_category custom_words_set_category type_label_def
      apply (simp only: filter_append filter_if_block filter_scan_rules refl if_True if_False)
      apply (simp only: list.inject list.distinct char.inject simp_thms if_True if_False
          append_Nil filter_custom cong: if_weak_cong)
      apply (simp only: list.inject list.distinct char.inject simp_thms if_True if_False)
      done
  next
    case 5
    show ?thesis
      unfolding 5 candidates_def enabled_set_category custom_words_set_category type_label_def
      apply (simp only: filter_append filter_if_block filter_scan_rules refl if_True if_False)
      apply (simp only: list.inject list.distinct char.inject simp_thms if_True if_False
          append_Nil filter_custom cong: if_weak_cong)
      apply (simp only: list.inject list.distinct char.inject simp_thms if_True if_False)
      done
  next
    case 6
    show ?thesis
      unfolding 6 candidates_def enabled_set_category custom_words_set_category type_label_def
      apply (simp only: filter_append filter_if_block filter_scan_rules refl if_True if_False)
      apply (simp only: list.inject list.distinct char.inject simp_thms if_True if_False
          append_Nil filter_custom cong: if_weak_cong)
      apply (simp only: list.inject list.distinct char.inject simp_thms if_True if_False)
      done
  next
    case 7
    show ?thesis
      unfolding 7 candidates_def enabled_set_category custom_words_set_category type_label_def
      apply (simp only: filter_append filter_if_block filter_scan_rules refl if_True if_False)
      apply (simp only: list.inject list.distinct char.inject simp_thms if_True if_False
          append_Nil filter_custom cong: if_weak_cong)
      apply (simp only: list.inject list.distinct char.inject simp_thms if_True if_False)
      done
  next
    case 8
    show ?thesis
      unfolding 8 candidates_def enabled_set_category custom_words_set_category type_label_def
      apply (simp only: filter_append filter_if_block filter_scan_rules refl if_True if_False)
      apply (simp only: list.inject list.distinct char.inject simp_thms if_True if_False
          append_Nil filter_custom cong: if_weak_cong)
      apply (simp only: list.inject list.distinct char.inject simp_thms if_True if_False)
      done
  qed
qed


lemma spec_dedup_filter_type:
  "filter P (spec_dedup xs)
     = filter (\<lambda>d. det_key d \<notin> set (map det_key (filter (\<lambda>x. \<not> P x) (spec_dedup xs))))
              (spec_dedup (filter P xs))"
proof (induction xs rule: spec_dedup.induct)
  case 1
  show ?case by simp
next
  case (2 d ds)
  let ?nd = "\<lambda>x. det_key x \<noteq> det_key d"
  let ?S = "set (map det_key (filter (\<lambda>x. \<not> P x) (spec_dedup (filter ?nd ds))))"
  have fresh: "det_key d \<notin> ?S"
  proof
    assume "det_key d \<in> ?S"
    then obtain x where x: "x \<in> set (spec_dedup (filter ?nd ds))" "det_key x = det_key d"
      by auto
    from x(1) have "x \<in> set (filter ?nd ds)"
      using set_spec_dedup by blast
    with x(2) show False by simp
  qed
  have comm: "filter P (filter ?nd ds) = filter ?nd (filter P ds)"
    by (simp add: conj_commute)
  have IH: "filter P (spec_dedup (filter ?nd ds))
      = filter (\<lambda>x. det_key x \<notin> ?S) (spec_dedup (filter ?nd (filter P ds)))"
    using "2.IH" by (simp only: comm)
  show ?case
  proof (cases "P d")
    case True
    have S: "set (map det_key (filter (\<lambda>x. \<not> P x) (spec_dedup (d # ds)))) = ?S"
      using True by (simp only: spec_dedup.simps filter.simps simp_thms if_False)
    have "spec_dedup (filter P (d # ds)) = d # spec_dedup (filter ?nd (filter P ds))"
      using True by (simp only: filter.simps if_True spec_dedup.simps)
    then have R: "filter (\<lambda>x. det_key x \<notin> ?S) (spec_dedup (filter P (d # ds)))
        = d # filter (\<lambda>x. det_key x \<notin> ?S) (spec_dedup (filter ?nd (filter P ds)))"
      using fresh by (simp only: filter.simps if_True simp_thms)
    have L: "filter P (spec_dedup (d # ds)) = d # filter P (spec_dedup (filter ?nd ds))"
      using True by (simp only: spec_dedup.simps filter.simps if_True)
    show ?thesis
      by (simp only: S L R IH)
  next
    case False
    have S: "set (map det_key (filter (\<lambda>x. \<not> P x) (spec_dedup (d # ds))))
        = insert (det_key d) ?S"
      using False by (simp only: spec_dedup.simps filter.simps simp_thms if_True list.map list.set)
    have "filter (\<lambda>x. det_key x \<notin> insert (det_key d) ?S) (spec_dedup (filter P ds))
        = filter (\<lambda>x. det_key x \<notin> ?S) (filter ?nd (spec_dedup (filter P ds)))"
      by (simp only: filter_filter insert_iff de_Morgan_disj)
    also have "\<dots> = filter (\<lambda>x. det_key x \<notin> ?S) (spec_dedup (filter ?nd (filter P ds)))"
      by (simp only: spec_dedup_filter_key)
    also have "\<dots> = filter P (spec_dedup (filter ?nd ds))"
      by (simp only: IH)
    finally have M: "filter (\<lambda>x. det_key x \<notin> insert (det_key d) ?S) (spec_dedup (filter P ds))
        = filter P (spec_dedup (filter ?nd ds))" .
    have F: "filter P (d # ds) = filter P ds"
      using False by (simp only: filter.simps if_False)
    have L: "filter P (spec_dedup (d # ds)) = filter P (spec_dedup (filter ?nd ds))"
      using False by (simp only: spec_dedup.simps filter.simps if_False)
    show ?thesis
      by (simp only: S L F M)
  qed
qed


text \<open>
  C2 (category independence), as the code has it. Switching one category off removes
  every detection of that category, and every detection of another category stays in
  the output, unchanged and in the same order. The output can gain detections, though:
  exactly for the spans \<open>(start, text)\<close> that the run with the category on attributed
  to that category, where deduplication had hidden another category's candidate.
\<close>

theorem category_disable:
  assumes "k \<in> set category_keys"
  shows "(\<forall>d \<in> set (find_pii U (set_category w k False) t). det_type d \<noteq> type_label k)
       \<and> filter (\<lambda>d. det_type d \<noteq> type_label k) (find_pii U (set_category w k True) t)
         = filter (\<lambda>d. det_key d \<notin> set (map det_key
                      (filter (\<lambda>x. det_type x = type_label k)
                         (find_pii U (set_category w k True) t))))
             (find_pii U (set_category w k False) t)"
proof -
  let ?P = "\<lambda>d. det_type d \<noteq> type_label k"
  let ?on = "sort_key det_start (candidates U (set_category w k True) t)"
  have off: "find_pii U (set_category w k False) t = spec_dedup (filter ?P ?on)"
    by (simp only: find_pii_spec candidates_disable [OF assms] filter_sort)
  have on: "find_pii U (set_category w k True) t = spec_dedup ?on"
    by (simp only: find_pii_spec)
  have "\<forall>d \<in> set (spec_dedup (filter ?P ?on)). ?P d"
  proof
    fix d
    assume "d \<in> set (spec_dedup (filter ?P ?on))"
    then have "d \<in> set (filter ?P ?on)"
      using set_spec_dedup by blast
    then show "?P d" by simp
  qed
  moreover have "filter ?P (spec_dedup ?on)
      = filter (\<lambda>d. det_key d \<notin> set (map det_key (filter (\<lambda>x. \<not> ?P x) (spec_dedup ?on))))
          (spec_dedup (filter ?P ?on))"
    by (rule spec_dedup_filter_type)
  ultimately show ?thesis
    by (simp only: off on not_not) 
qed

theorem category_disable_witness:
  "\<forall>U. ''phone'' \<in> set category_keys
   \<and> list_all (\<lambda>d. det_type d \<noteq> ''PHONE'')
        (find_pii U (set_category w_phone_bank ''phone'' False) (u ''5551234567''))
   \<and> filter (\<lambda>d. det_type d \<noteq> ''PHONE'')
        (find_pii U (set_category w_phone_bank ''phone'' True) (u ''5551234567''))
      = filter (\<lambda>d. det_key d \<notin> set (map det_key
                    (filter (\<lambda>x. det_type x = ''PHONE'')
                       (find_pii U (set_category w_phone_bank ''phone'' True) (u ''5551234567'')))))
          (find_pii U (set_category w_phone_bank ''phone'' False) (u ''5551234567''))"
proof
  fix U
  have k: "''phone'' \<in> set category_keys"
    by (simp add: category_keys_def)
  have l: "type_label ''phone'' = ''PHONE''"
    by (simp add: type_label_def)
  have rest: "list_all (\<lambda>d. det_type d \<noteq> ''PHONE'')
        (find_pii U (set_category w_phone_bank ''phone'' False) (u ''5551234567''))
   \<and> filter (\<lambda>d. det_type d \<noteq> ''PHONE'')
        (find_pii U (set_category w_phone_bank ''phone'' True) (u ''5551234567''))
      = filter (\<lambda>d. det_key d \<notin> set (map det_key
                    (filter (\<lambda>x. det_type x = ''PHONE'')
                       (find_pii U (set_category w_phone_bank ''phone'' True) (u ''5551234567'')))))
          (find_pii U (set_category w_phone_bank ''phone'' False) (u ''5551234567''))"
    using category_disable [OF k, of U w_phone_bank "u ''5551234567''"] unfolding l list_all_iff .
  from k rest show "''phone'' \<in> set category_keys
   \<and> list_all (\<lambda>d. det_type d \<noteq> ''PHONE'')
        (find_pii U (set_category w_phone_bank ''phone'' False) (u ''5551234567''))
   \<and> filter (\<lambda>d. det_type d \<noteq> ''PHONE'')
        (find_pii U (set_category w_phone_bank ''phone'' True) (u ''5551234567''))
      = filter (\<lambda>d. det_key d \<notin> set (map det_key
                    (filter (\<lambda>x. det_type x = ''PHONE'')
                       (find_pii U (set_category w_phone_bank ''phone'' True) (u ''5551234567'')))))
          (find_pii U (set_category w_phone_bank ''phone'' False) (u ''5551234567''))"
    by (rule conjI)
qed

text \<open>
  The claim as stated fails: on the ten digits \<open>5551234567\<close> the phone rule and the
  bank-account rule match the same span. With both on the span is reported as
  \<open>PHONE\<close>; with the phone category off a \<open>BANK_ACCOUNT\<close> detection appears that the
  first run did not report. The text is ASCII, so this is the case whatever the Unicode
  database is.
\<close>

theorem category_independence_counterexample:
  "\<forall>U. find_pii U (set_category w_phone_bank ''phone'' True) (u ''5551234567'')
     = [\<lparr>det_text = u ''5551234567'', det_type = ''PHONE'', det_start = 0, det_page = None\<rparr>]
   \<and> find_pii U (set_category w_phone_bank ''phone'' False) (u ''5551234567'')
     = [\<lparr>det_text = u ''5551234567'', det_type = ''BANK_ACCOUNT'', det_start = 0, det_page = None\<rparr>]"
  by (intro allI) code_simp

subsection \<open>Custom phrases\<close>

text \<open>\<open>re.escape\<close> followed by the parser gives the phrase, character by character.\<close>

lemma special_not_alnum: "c \<in> set special_chars \<Longrightarrow> \<not> ascii_alnum c"
  by (auto simp: special_chars_def ascii_alnum_def u_def code_def)

lemma parser_special_special: "c \<in> set parser_special \<Longrightarrow> c \<in> set special_chars"
  by (auto simp: special_chars_def parser_special_def u_def code_def)

lemma backslash_special: "92 \<in> set special_chars"
  by (simp add: special_chars_def)

lemma parse_literals_plain:
  assumes "c \<notin> set special_chars"
  shows "parse_literals (c # rest) = map_option (\<lambda>rs. Lit c # rs) (parse_literals rest)"
proof -
  from assms have a: "c \<notin> set parser_special" and b: "c \<noteq> 92"
    using parser_special_special backslash_special by blast+
  then show ?thesis by (cases rest) simp_all
qed

lemma parse_literals_escaped:
  assumes "c \<in> set special_chars"
  shows "parse_literals (92 # c # rest) = map_option (\<lambda>rs. Lit c # rs) (parse_literals rest)"
  using special_not_alnum [OF assms] by simp

lemma parse_re_escape: "parse_literals (re_escape word) = Some (map Lit word)"
proof (induction word)
  case Nil
  show ?case by (simp add: re_escape_def)
next
  case (Cons c cs)
  have r: "re_escape (c # cs) = (if c \<in> set special_chars then [92, c] else [c]) @ re_escape cs"
    by (simp add: re_escape_def)
  show ?case
  proof (cases "c \<in> set special_chars")
    case True
    then show ?thesis
      using Cons by (simp add: r parse_literals_escaped del: parse_literals.simps)
  next
    case False
    then show ?thesis
      using Cons by (simp add: r parse_literals_plain del: parse_literals.simps)
  qed
qed

lemma escape_literal: "escape word = seqs (map Lit word)"
  by (simp add: escape_def parse_re_escape)

lemma escape_Nil: "escape [] = Eps"
  by (simp add: escape_literal seqs_def)

lemma escape_Cons: "escape (c # cs) = Seq (Lit c) (escape cs)"
  by (simp add: escape_literal seqs_def)

lemma re_match_escape:
  "i \<le> length t \<Longrightarrow>
   re_match U True t (escape word) i = (if occurs_at U word t i then [i + length word] else [])"
proof (induction word arbitrary: i)
  case Nil
  then show ?case by (simp add: escape_Nil occurs_at_def)
next
  case (Cons c cs)
  show ?case
  proof (cases "i < length t")
    case False
    then show ?thesis by (simp add: escape_Cons occurs_at_def)
  next
    case True
    then have d: "drop i t = t ! i # drop (Suc i) t"
      by (simp add: Cons_nth_drop_Suc)
    have o: "occurs_at U (c # cs) t i = (lit_match U True c (t ! i) \<and> occurs_at U cs t (Suc i))"
      using True by (auto simp: occurs_at_def d)
    from True have "Suc i \<le> length t" by simp
    then have "re_match U True t (escape cs) (Suc i)
        = (if occurs_at U cs t (Suc i) then [Suc i + length cs] else [])"
      by (rule Cons.IH)
    then show ?thesis
      using True by (simp add: escape_Cons o)
  qed
qed

lemma finditer_escape_sound_aux:
  "(s, e) \<in> set (finditer_from U ic r t p adv) \<Longrightarrow> ic \<Longrightarrow> r = escape word \<Longrightarrow>
   p \<le> s \<and> occurs_at U word t s \<and> e = s + length word \<and> (adv \<and> word = [] \<longrightarrow> p < s)"
proof (induction U ic r t p adv rule: finditer_from.induct)
  case (1 U ic r t p adv)
  note ic = \<open>ic\<close> and r = \<open>r = escape word\<close>
  show ?case
  proof (cases "length t < p")
    case True
    with "1.prems"(1) show ?thesis by (simp add: finditer_from.simps [of U ic r t p])
  next
    case False
    then have pl: "p \<le> length t" by simp
    let ?ms = "filter (\<lambda>e. \<not> adv \<or> e \<noteq> p) (re_match U ic t r p)"
    show ?thesis
    proof (cases ?ms)
      case Nil
      with False "1.prems"(1) have "(s, e) \<in> set (finditer_from U ic r t (Suc p) False)"
        by (simp add: finditer_from.simps [of U ic r t p])
      from "1.IH"(1) [OF False Nil this ic r] show ?thesis by auto
    next
      case (Cons e' es)
      then have "e' \<in> set ?ms" by simp
      then have e': "occurs_at U word t p" "e' = p + length word" "\<not> adv \<or> e' \<noteq> p"
        using pl ic r by (auto simp: re_match_escape split: if_splits)
      from False Cons "1.prems"(1)
      have "(s, e) = (p, e') \<or> (s, e) \<in> set (finditer_from U ic r t e' (e' = p))"
        by (simp add: finditer_from.simps [of U ic r t p])
      then show ?thesis
      proof
        assume "(s, e) = (p, e')"
        with e' show ?thesis by auto
      next
        assume "(s, e) \<in> set (finditer_from U ic r t e' (e' = p))"
        from "1.IH"(2) [OF False Cons this ic r] e' show ?thesis by auto
      qed
    qed
  qed
qed

lemma finditer_escape_sound:
  "(s, e) \<in> set (finditer U True (escape word) t) \<Longrightarrow> occurs_at U word t s \<and> e = s + length word"
  using finditer_escape_sound_aux [of s e U True "escape word" t 0 False word]
  by (simp add: finditer_def)

lemma finditer_escape_apart_aux:
  "ic \<Longrightarrow> r = escape word \<Longrightarrow>
   sorted_wrt (\<lambda>a b. snd a \<le> fst b \<and> fst a < fst b) (finditer_from U ic r t p adv)"
proof (induction U ic r t p adv rule: finditer_from.induct)
  case (1 U ic r t p adv)
  note ic = \<open>ic\<close> and r = \<open>r = escape word\<close>
  show ?case
  proof (cases "length t < p")
    case True
    then show ?thesis by (simp add: finditer_from.simps [of U ic r t p])
  next
    case False
    then have pl: "p \<le> length t" by simp
    let ?ms = "filter (\<lambda>e. \<not> adv \<or> e \<noteq> p) (re_match U ic t r p)"
    show ?thesis
    proof (cases ?ms)
      case Nil
      with False "1.IH"(1) [OF False Nil ic r] show ?thesis
        by (simp add: finditer_from.simps [of U ic r t p])
    next
      case (Cons e' es)
      then have "e' \<in> set ?ms" by simp
      then have e': "e' = p + length word"
        using pl ic r by (auto simp: re_match_escape split: if_splits)
      have later: "e' \<le> fst b \<and> p < fst b"
        if "b \<in> set (finditer_from U ic r t e' (e' = p))" for b
      proof -
        obtain s e where b: "b = (s, e)" by (cases b)
        with that have "(s, e) \<in> set (finditer_from U ic r t e' (e' = p))" by simp
        from finditer_escape_sound_aux [OF this ic r]
        have a: "e' \<le> s" and c: "e' = p \<and> word = [] \<longrightarrow> e' < s" by simp_all
        have "e' \<le> s \<and> p < s"
        proof (cases "word = []")
          case True
          with e' have "e' = p" by simp
          with True a c show ?thesis by simp
        next
          case False
          then have "0 < length word" by simp
          with e' have "p < e'" by linarith
          with a show ?thesis by linarith
        qed
        with b show ?thesis by simp
      qed
      have "finditer_from U ic r t p adv = (p, e') # finditer_from U ic r t e' (e' = p)"
        using False Cons by (simp add: finditer_from.simps [of U ic r t p])
      with "1.IH"(2) [OF False Cons ic r] later show ?thesis by simp
    qed
  qed
qed

lemma finditer_escape_cover_aux:
  "ic \<Longrightarrow> r = escape word \<Longrightarrow> occurs_at U word t i \<Longrightarrow> p \<le> i \<Longrightarrow>
   (adv \<and> word = [] \<longrightarrow> p < i) \<Longrightarrow>
   \<exists>m \<in> set (finditer_from U ic r t p adv). fst m \<le> i \<and> (i = fst m \<or> i < snd m)"
proof (induction U ic r t p adv rule: finditer_from.induct)
  case (1 U ic r t p adv)
  note ic = \<open>ic\<close> and r = \<open>r = escape word\<close> and occ = \<open>occurs_at U word t i\<close>
  from occ have il: "i \<le> length t" by (simp add: occurs_at_def)
  with \<open>p \<le> i\<close> have pl: "p \<le> length t" and False: "\<not> length t < p" by simp_all
  let ?ms = "filter (\<lambda>e. \<not> adv \<or> e \<noteq> p) (re_match U ic t r p)"
  show ?case
  proof (cases ?ms)
    case Nil
    have "i \<noteq> p"
    proof
      assume "i = p"
      with occ pl ic r have "re_match U ic t r p = [p + length word]"
        by (simp add: re_match_escape)
      with Nil have "adv \<and> word = []" by (auto split: if_splits)
      with "1.prems"(5) \<open>i = p\<close> show False by simp
    qed
    with \<open>p \<le> i\<close> have "Suc p \<le> i" by simp
    from "1.IH"(1) [OF False Nil ic r occ this] 
    have "\<exists>m \<in> set (finditer_from U ic r t (Suc p) False). fst m \<le> i \<and> (i = fst m \<or> i < snd m)"
      by simp
    with False Nil show ?thesis by (simp add: finditer_from.simps [of U ic r t p])
  next
    case (Cons e' es)
    then have "e' \<in> set ?ms" by simp
    then have e': "e' = p + length word"
      using pl ic r by (auto simp: re_match_escape split: if_splits)
    have unf: "finditer_from U ic r t p adv = (p, e') # finditer_from U ic r t e' (e' = p)"
      using False Cons by (simp add: finditer_from.simps [of U ic r t p])
    show ?thesis
    proof (cases "i = p \<or> i < e'")
      case True
      with \<open>p \<le> i\<close> unf show ?thesis by auto
    next
      case F: False
      then have "e' \<le> i" "(e' = p) \<and> word = [] \<longrightarrow> e' < i" by auto
      from "1.IH"(2) [OF False Cons ic r occ this]
      show ?thesis using unf by auto
    qed
  qed
qed

lemma hits_in_candidates:
  "word \<in> set (custom_words w) \<Longrightarrow> set (hits U True ''CUSTOM'' (escape word) t) \<subseteq> set (candidates U w t)"
  by (auto simp: candidates_def)

lemma project_hits:
  "hits U True ''CUSTOM'' (escape (u ''Project-123'')) (u ''see PROJECT-123 now'')
     = [\<lparr>det_text = u ''PROJECT-123'', det_type = ''CUSTOM'', det_start = 4, det_page = None\<rparr>]"
  by code_simp

lemma long_s_example:
  assumes "u_tolower U 383 = 383"
  shows "hits U True ''CUSTOM'' (escape (u ''s'')) [383]
     = [\<lparr>det_text = [383], det_type = ''CUSTOM'', det_start = 0, det_page = None\<rparr>]"
proof -
  have t: "tolower U 383 = 383"
    using assms by (simp add: tolower_def)
  have e: "escape (u ''s'') = Seq (Lit 115) Eps"
    by (simp add: escape_literal seqs_def u_def code_def)
  have i: "iscased U 115"
    by (simp add: iscased_def toupper_def)
  have f: "folds U 115 = [115, 383]"
    by (simp add: folds_def extra_cases_def tolower_def)
  have l: "lit_match U True 115 383"
    unfolding lit_match_def using i f t by simp
  have m: "re_match U True [383] (Seq (Lit 115) Eps) 0 = [Suc 0]"
    using l by simp
  have n: "re_match U True [383] (Seq (Lit 115) Eps) (Suc 0) = []"
    by simp
  have f2: "finditer_from U True (Seq (Lit 115) Eps) [383] (Suc (Suc 0)) False = []"
    by (simp add: finditer_from.simps [of U True _ _ "Suc (Suc 0)"])
  have f1: "finditer_from U True (Seq (Lit 115) Eps) [383] (Suc 0) False = []"
    using n f2 by (simp add: finditer_from.simps [of U True _ _ "Suc 0"])
  have "finditer U True (Seq (Lit 115) Eps) [383] = [(0, Suc 0)]"
    unfolding finditer_def using m f1 by (simp add: finditer_from.simps [of U True _ _ 0])
  then show ?thesis by (simp add: hits_def e)
qed

text \<open>
  C8 (custom-phrase matching), as the code has it. For a custom phrase the scan is
  \<open>re.finditer(re.escape(word), text, re.IGNORECASE)\<close>, which reports matches from left
  to right and resumes after each match. Every candidate has type \<open>CUSTOM\<close>, starts at
  a case-insensitive occurrence of the phrase (no phrase character is read as pattern
  syntax) and carries the text as it appears in the page; the candidates start at
  strictly increasing offsets and do not overlap; every occurrence of the phrase is
  reported or lies inside a reported one; and the candidates of a configured phrase are
  among the candidates of \<open>find_pii\<close>. This holds for every phrase and text over all of
  Unicode and for every Unicode database.
\<close>

theorem custom_phrase_matches:
  "(\<forall>d \<in> set (hits U True ''CUSTOM'' (escape word) t).
       det_type d = ''CUSTOM'' \<and> occurs_at U word t (det_start d)
       \<and> det_text d = take (length word) (drop (det_start d) t))
   \<and> sorted_wrt (\<lambda>a b. det_start a + length word \<le> det_start b \<and> det_start a < det_start b)
        (hits U True ''CUSTOM'' (escape word) t)
   \<and> (\<forall>i. occurs_at U word t i \<longrightarrow>
         (\<exists>d \<in> set (hits U True ''CUSTOM'' (escape word) t).
             det_start d \<le> i \<and> (i = det_start d \<or> i < det_start d + length word)))
   \<and> (word \<in> set (custom_words w) \<longrightarrow>
         set (hits U True ''CUSTOM'' (escape word) t) \<subseteq> set (candidates U w t))"
proof (intro conjI)
  let ?mk = "\<lambda>(s, e). \<lparr>det_text = take (e - s) (drop s t), det_type = ''CUSTOM'',
                          det_start = s, det_page = None\<rparr>"
  let ?ms = "finditer U True (escape word) t"
  have hs: "hits U True ''CUSTOM'' (escape word) t = map ?mk ?ms"
    by (simp add: hits_def)
  have snd_eq: "snd m = fst m + length word" and occ: "occurs_at U word t (fst m)"
    if "m \<in> set ?ms" for m
    using finditer_escape_sound [of "fst m" "snd m" U word t] that by simp_all
  show "\<forall>d \<in> set (hits U True ''CUSTOM'' (escape word) t).
       det_type d = ''CUSTOM'' \<and> occurs_at U word t (det_start d)
       \<and> det_text d = take (length word) (drop (det_start d) t)"
  proof
    fix d
    assume "d \<in> set (hits U True ''CUSTOM'' (escape word) t)"
    then obtain m where m: "m \<in> set ?ms" "d = ?mk m"
      unfolding hs by auto
    with snd_eq [OF m(1)] occ [OF m(1)] show "det_type d = ''CUSTOM'' \<and> occurs_at U word t (det_start d)
       \<and> det_text d = take (length word) (drop (det_start d) t)"
      by (cases m) simp
  qed
  have "sorted_wrt (\<lambda>a b. snd a \<le> fst b \<and> fst a < fst b) ?ms"
    unfolding finditer_def by (rule finditer_escape_apart_aux) simp_all
  then have "sorted_wrt (\<lambda>a b. fst a + length word \<le> fst b \<and> fst a < fst b) ?ms"
    by (rule sorted_wrt_mono_rel [rotated]) (simp add: snd_eq)
  then show "sorted_wrt (\<lambda>a b. det_start a + length word \<le> det_start b \<and> det_start a < det_start b)
        (hits U True ''CUSTOM'' (escape word) t)"
    unfolding hs sorted_wrt_map by (simp add: case_prod_beta)
  show "\<forall>i. occurs_at U word t i \<longrightarrow>
         (\<exists>d \<in> set (hits U True ''CUSTOM'' (escape word) t).
             det_start d \<le> i \<and> (i = det_start d \<or> i < det_start d + length word))"
  proof (intro allI impI)
    fix i
    assume "occurs_at U word t i"
    then have "\<exists>m \<in> set (finditer_from U True (escape word) t 0 False).
        fst m \<le> i \<and> (i = fst m \<or> i < snd m)"
      by (intro finditer_escape_cover_aux) simp_all
    then obtain m where m: "m \<in> set ?ms" "fst m \<le> i" "i = fst m \<or> i < snd m"
      unfolding finditer_def by blast
    have "?mk m \<in> set (hits U True ''CUSTOM'' (escape word) t)"
      unfolding hs using m(1) by simp
    moreover have "det_start (?mk m) = fst m"
      by (cases m) simp
    ultimately show "\<exists>d \<in> set (hits U True ''CUSTOM'' (escape word) t).
             det_start d \<le> i \<and> (i = det_start d \<or> i < det_start d + length word)"
      using m(2,3) snd_eq [OF m(1)] by (intro bexI [of _ "?mk m"]) simp_all
  qed
  show "word \<in> set (custom_words w) \<longrightarrow>
         set (hits U True ''CUSTOM'' (escape word) t) \<subseteq> set (candidates U w t)"
    using hits_in_candidates by blast
qed

text \<open>
  The specification's example: the phrase \<open>Project-123\<close> matches the occurrence
  \<open>PROJECT-123\<close> and yields a \<open>CUSTOM\<close> candidate with the text of the page.
\<close>

theorem custom_phrase_matches_witness:
  "\<forall>U. occurs_at U (u ''Project-123'') (u ''see PROJECT-123 now'') 4
   \<and> u ''Project-123'' \<in> set (custom_words w_project)
   \<and> (\<exists>d \<in> set (candidates U w_project (u ''see PROJECT-123 now'')).
         det_type d = ''CUSTOM'' \<and> det_start d = 4 \<and> det_text d = u ''PROJECT-123'')"
proof
  fix U
  let ?t = "u ''see PROJECT-123 now''" and ?p = "u ''Project-123''"
  have o: "occurs_at U ?p ?t 4"
    by code_simp
  have c: "?p \<in> set (custom_words w_project)"
    by (simp add: w_project_def WorkerThread_def)
  note T = custom_phrase_matches [of U ?p ?t w_project]
  from T have cover: "\<forall>i. occurs_at U ?p ?t i \<longrightarrow>
         (\<exists>d \<in> set (hits U True ''CUSTOM'' (escape ?p) ?t).
             det_start d \<le> i \<and> (i = det_start d \<or> i < det_start d + length ?p))"
    by (elim conjE)
  from T c have sub: "set (hits U True ''CUSTOM'' (escape ?p) ?t) \<subseteq> set (candidates U w_project ?t)"
    by (elim conjE) (rule mp)
  from cover o obtain d where d: "d \<in> set (hits U True ''CUSTOM'' (escape ?p) ?t)"
    by blast
  from d sub have "d \<in> set (candidates U w_project ?t)" by (rule rev_subsetD)
  moreover from d have "det_type d = ''CUSTOM'' \<and> det_start d = 4 \<and> det_text d = u ''PROJECT-123''"
    unfolding project_hits by simp
  ultimately show "occurs_at U ?p ?t 4 \<and> ?p \<in> set (custom_words w_project)
   \<and> (\<exists>d \<in> set (candidates U w_project ?t).
         det_type d = ''CUSTOM'' \<and> det_start d = 4 \<and> det_text d = u ''PROJECT-123'')"
    using o c by blast
qed

text \<open>
  The claim as stated fails for overlapping occurrences: \<open>aa\<close> occurs in \<open>aaa\<close> at
  offsets 0 and 1, and the scan reports the occurrence at 0 only.
\<close>

theorem custom_phrase_counterexample:
  "\<forall>U. occurs_at U (u ''aa'') (u ''aaa'') 1
   \<and> hits U True ''CUSTOM'' (escape (u ''aa'')) (u ''aaa'')
       = [\<lparr>det_text = u ''aa'', det_type = ''CUSTOM'', det_start = 0, det_page = None\<rparr>]"
  by (intro allI) code_simp

subsection \<open>Date-of-birth rules\<close>
















































end
